theory Spec2Isabelle
  imports Main "HOL-Library.Sublist"
begin

section \<open>Strings of the converter\<close>

text \<open>
  The converter (\<^verbatim>\<open>spotify_converter.py\<close>) works on Python \<^verbatim>\<open>str\<close> values. A
  \<^typ>\<open>char\<close> stands here for one code point in the range U+0000 .. U+00FF, so a
  \<^typ>\<open>string\<close> is a Python string over that range and \<^const>\<open>length\<close> counts code
  points. The tables below are those of CPython for that range.
\<close>

abbreviation newline :: char where
  "newline \<equiv> CHR 0x0A"

definition isspace :: "char \<Rightarrow> bool" where
  \<comment> \<open>\<^verbatim>\<open>str.isspace\<close> on one code point; the class \<^verbatim>\<open>\s\<close> of \<^verbatim>\<open>re\<close> on \<^verbatim>\<open>str\<close> patterns is the same set.\<close>
  "isspace c \<longleftrightarrow>
     c \<in> set [CHR 0x09, CHR 0x0A, CHR 0x0B, CHR 0x0C, CHR 0x0D,
              CHR 0x1C, CHR 0x1D, CHR 0x1E, CHR 0x1F, CHR 0x20, CHR 0x85, CHR 0xA0]"

definition lower_char :: "char \<Rightarrow> char" where
  \<comment> \<open>\<^verbatim>\<open>str.lower\<close> on one code point: A-Z and U+00C0 .. U+00DE without U+00D7 move up by 32.\<close>
  "lower_char c =
     (let n = (of_char c :: nat)
      in if (65 \<le> n \<and> n \<le> 90) \<or> (192 \<le> n \<and> n \<le> 222 \<and> n \<noteq> 215)
         then char_of (n + 32) else c)"

definition lower :: "string \<Rightarrow> string" where
  "lower s = map lower_char s"

definition strip :: "string \<Rightarrow> string" where
  \<comment> \<open>\<^verbatim>\<open>s.strip()\<close>\<close>
  "strip s = rev (dropWhile isspace (rev (dropWhile isspace s)))"

function split_ws :: "string \<Rightarrow> string list" where
  \<comment> \<open>\<^verbatim>\<open>s.split()\<close>: the maximal runs of non-whitespace, in order.\<close>
  "split_ws s =
     (case dropWhile isspace s of
        [] \<Rightarrow> []
      | c # cs \<Rightarrow> (c # takeWhile (\<lambda>x. \<not> isspace x) cs) # split_ws (dropWhile (\<lambda>x. \<not> isspace x) cs))"
  by pat_completeness auto
termination
proof (relation "measure length", goal_cases)
  case 1
  show ?case by simp
next
  case (2 s c cs)
  have "length (dropWhile (\<lambda>x. \<not> isspace x) cs) \<le> length cs"
    by (rule length_dropWhile_le)
  moreover have "length (c # cs) \<le> length s"
    using length_dropWhile_le [of isspace s] 2 by simp
  ultimately show ?case by simp
qed

declare split_ws.simps [simp del]

fun split1 :: "string \<Rightarrow> string \<Rightarrow> string list" where
  \<comment> \<open>\<^verbatim>\<open>s.split(sep, 1)\<close> for a non-empty \<^verbatim>\<open>sep\<close>: cut at the first occurrence of \<^verbatim>\<open>sep\<close>.\<close>
  "split1 sep [] = [[]]"
| "split1 sep (c # cs) =
     (if prefix sep (c # cs) then [[], drop (length sep) (c # cs)]
      else (case split1 sep cs of
              [a] \<Rightarrow> [c # a]
            | a # rest \<Rightarrow> (c # a) # rest
            | [] \<Rightarrow> []))"

datatype error = IndexError | AttributeError | EOFError

definition index :: "'a list \<Rightarrow> nat \<Rightarrow> error + 'a" where
  \<comment> \<open>\<^verbatim>\<open>xs[i]\<close> for a non-negative literal \<^verbatim>\<open>i\<close>\<close>
  "index xs i = (if i < length xs then Inr (xs ! i) else Inl IndexError)"

definition or_else :: "string \<Rightarrow> string \<Rightarrow> string" where
  \<comment> \<open>\<^verbatim>\<open>a or b\<close> on strings: the empty string is false.\<close>
  "or_else a b = (if a = [] then b else a)"

section \<open>The regular expressions\<close>

text \<open>
  The patterns of \<^verbatim>\<open>clean_title\<close> and \<^verbatim>\<open>clean_artist\<close> are sequences of
  one-character atoms, each taken once or under \<^verbatim>\<open>*?\<close>, \<^verbatim>\<open>*\<close> or \<^verbatim>\<open>+\<close>, and the
  anchor \<^verbatim>\<open>$\<close>. \<open>rmatch\<close> is the backtracking matcher of \<^verbatim>\<open>re\<close> on such a
  sequence: it returns what is left of the text after the first match found in
  priority order (a lazy star tries the rest of the pattern before it takes a
  character, a greedy one after).
\<close>

datatype atom =
    Lit char             \<comment> \<open>a literal character\<close>
  | Dot                  \<comment> \<open>\<^verbatim>\<open>.\<close> without DOTALL: anything but a newline\<close>
  | Space                \<comment> \<open>\<^verbatim>\<open>\s\<close>\<close>
  | Class "char list"    \<comment> \<open>\<^verbatim>\<open>[...]\<close>\<close>

fun atom_ok :: "bool \<Rightarrow> atom \<Rightarrow> char \<Rightarrow> bool" where
  \<comment> \<open>The first argument is the flag \<^verbatim>\<open>re.IGNORECASE\<close>.\<close>
  "atom_ok ic (Lit a) c = (if ic then lower_char c = lower_char a else c = a)"
| "atom_ok ic Dot c = (c \<noteq> newline)"
| "atom_ok ic Space c = isspace c"
| "atom_ok ic (Class as) c =
     (if ic then lower_char c \<in> set (map lower_char as) else c \<in> set as)"

datatype item =
    One atom     \<comment> \<open>the atom once\<close>
  | Lazy atom    \<comment> \<open>\<^verbatim>\<open>a*?\<close>\<close>
  | Star atom    \<comment> \<open>\<^verbatim>\<open>a*\<close>\<close>
  | Plus atom    \<comment> \<open>\<^verbatim>\<open>a+\<close>\<close>
  | Eos          \<comment> \<open>\<^verbatim>\<open>$\<close> without MULTILINE: the end, or just before a final newline\<close>

fun rmatch :: "bool \<Rightarrow> item list \<Rightarrow> string \<Rightarrow> string option" where
  "rmatch ic [] s = Some s"
| "rmatch ic (One a # r) s =
     (case s of [] \<Rightarrow> None
      | c # cs \<Rightarrow> if atom_ok ic a c then rmatch ic r cs else None)"
| "rmatch ic (Lazy a # r) s =
     (case rmatch ic r s of
        Some t \<Rightarrow> Some t
      | None \<Rightarrow>
          (case s of [] \<Rightarrow> None
           | c # cs \<Rightarrow> if atom_ok ic a c then rmatch ic (Lazy a # r) cs else None))"
| "rmatch ic (Star a # r) s =
     (case s of [] \<Rightarrow> rmatch ic r []
      | c # cs \<Rightarrow>
          if atom_ok ic a c
          then (case rmatch ic (Star a # r) cs of
                  Some t \<Rightarrow> Some t
                | None \<Rightarrow> rmatch ic r s)
          else rmatch ic r s)"
| "rmatch ic (Plus a # r) s =
     (case s of [] \<Rightarrow> None
      | c # cs \<Rightarrow> if atom_ok ic a c then rmatch ic (Star a # r) cs else None)"
| "rmatch ic (Eos # r) s =
     (if s = [] \<or> s = [newline] then rmatch ic r s else None)"

function re_sub :: "bool \<Rightarrow> item list \<Rightarrow> string \<Rightarrow> string \<Rightarrow> string" where
  \<comment> \<open>\<^verbatim>\<open>re.sub(pattern, repl, s, flags)\<close>: the matches are found from left to right, each
      is replaced by \<^verbatim>\<open>repl\<close> and the search goes on behind it. No pattern of the
      converter matches the empty string (lemma \<open>patterns_consume\<close>), so the rule of
      \<^verbatim>\<open>re.sub\<close> for empty matches is not modelled: such a match is passed over.\<close>
  "re_sub ic p repl [] = []"
| "re_sub ic p repl (c # cs) =
     (case rmatch ic p (c # cs) of
        None \<Rightarrow> c # re_sub ic p repl cs
      | Some t \<Rightarrow>
          if length t < length (c # cs) then repl @ re_sub ic p repl t
          else c # re_sub ic p repl cs)"
  by pat_completeness auto
termination
  by (relation "measure (\<lambda>(ic, p, repl, s). length s)") auto

definition lits :: "string \<Rightarrow> item list" where
  "lits s = map (\<lambda>c. One (Lit c)) s"

definition paren_prefix :: "string \<Rightarrow> item list" where
  \<comment> \<open>\<^verbatim>\<open>\(kw.*?\)\<close>\<close>
  "paren_prefix kw = One (Lit (CHR ''('')) # lits kw @ [Lazy Dot, One (Lit (CHR '')''))]"

definition paren_containing :: "string \<Rightarrow> item list" where
  \<comment> \<open>\<^verbatim>\<open>\(.*?kw.*?\)\<close>\<close>
  "paren_containing kw =
     One (Lit (CHR ''('')) # Lazy Dot # lits kw @ [Lazy Dot, One (Lit (CHR '')''))]"

definition bracketed :: "item list" where
  \<comment> \<open>\<^verbatim>\<open>\[.*?\]\<close>\<close>
  "bracketed = [One (Lit (CHR ''['')), Lazy Dot, One (Lit (CHR '']''))]"

definition spaces :: "item list" where
  \<comment> \<open>\<^verbatim>\<open>\s+\<close>\<close>
  "spaces = [Plus Space]"

definition artist_sep :: "item list" where
  \<comment> \<open>\<^verbatim>\<open>\s*[,&]\s*.*$\<close>\<close>
  "artist_sep = [Star Space, One (Class '',&''), Star Space, Star Dot, Eos]"

definition artist_tail :: "string \<Rightarrow> item list" where
  \<comment> \<open>\<^verbatim>\<open>\s*kw.*$\<close>\<close>
  "artist_tail kw = Star Space # lits kw @ [Star Dot, Eos]"

section \<open>The normalizer\<close>

definition clean_title :: "string \<Rightarrow> string" where
  "clean_title title0 =
     (let title = re_sub True (paren_prefix ''feat.'') [] title0;
          title = re_sub True (paren_prefix ''ft.'') [] title;
          title = re_sub True (paren_prefix ''with'') [] title;
          title = re_sub True (paren_containing ''remix'') [] title;
          title = re_sub True (paren_containing ''version'') [] title;
          title = re_sub True (paren_containing ''edit'') [] title;
          title = re_sub False bracketed [] title;
          title = strip (re_sub False spaces '' '' title)
      in title)"

definition clean_artist :: "string \<Rightarrow> string" where
  "clean_artist artist0 =
     (let artist = re_sub False artist_sep [] artist0;
          artist = re_sub True (artist_tail ''feat.'') [] artist;
          artist = re_sub True (artist_tail ''ft.'') [] artist
      in strip artist)"

definition should_add_artist :: "string \<Rightarrow> string \<Rightarrow> error + bool" where
  "should_add_artist artist title =
     (if artist = [] \<or> artist = ''Unknown Artist'' then Inr False
      else
        let artist_lower = lower artist;
            title_lower = lower title
        in if sublist artist_lower title_lower then Inr False
           else (case index (split_ws artist_lower) 0 of
                   Inl e \<Rightarrow> Inl e
                 | Inr artist_first_word \<Rightarrow>
                     if length artist_first_word > 2 \<and> sublist artist_first_word title_lower
                     then Inr False
                     else Inr True))"

section \<open>Song entries and the three adapters\<close>

record song =
  artist :: string
  title :: string
  search :: string

definition entry :: "string \<Rightarrow> string \<Rightarrow> string \<Rightarrow> song" where
  \<comment> \<open>The dictionary that each adapter appends, from its variables \<^verbatim>\<open>artist_name\<close>,
      \<^verbatim>\<open>track_name\<close> and \<^verbatim>\<open>search_term\<close>.\<close>
  "entry artist_name track_name search_term =
     \<lparr>artist = or_else artist_name ''Unknown Artist'',
      title = track_name,
      search = search_term\<rparr>"

datatype diag = No_track_name nat
  \<comment> \<open>the warning that row \<open>n\<close> has no track name and is skipped\<close>

datatype 'a outcome = Returned 'a | Exited nat
  \<comment> \<open>a function returns, or the process leaves through \<^verbatim>\<open>sys.exit(code)\<close>\<close>

subsection \<open>Exportify CSV rows\<close>

text \<open>
  A row of \<^verbatim>\<open>csv.DictReader\<close> is a dictionary from column names to cells. A cell
  is a string, or \<^verbatim>\<open>None\<close> where the row is shorter than the header.
\<close>

type_synonym row = "string \<rightharpoonup> string option"

definition row_get :: "row \<Rightarrow> string \<Rightarrow> string option" where
  \<comment> \<open>\<^verbatim>\<open>row.get(key, '')\<close>; the result \<open>None\<close> is Python's \<^verbatim>\<open>None\<close>.\<close>
  "row_get r key = (case r key of None \<Rightarrow> Some [] | Some cell \<Rightarrow> cell)"

definition csv_row :: "row \<Rightarrow> error + song option" where
  \<comment> \<open>The body of the loop of \<^verbatim>\<open>process_csv_export\<close>: \<open>Inr None\<close> is the skipped row,
      \<open>Inl\<close> an exception (\<^verbatim>\<open>None.strip()\<close> raises AttributeError).\<close>
  "csv_row r =
     (case row_get r ''Track Name'' of
        None \<Rightarrow> Inl AttributeError
      | Some track_cell \<Rightarrow>
     (case row_get r ''Artist Name(s)'' of
        None \<Rightarrow> Inl AttributeError
      | Some artist_cell \<Rightarrow>
          let track_name = strip track_cell;
              artist_name = strip artist_cell
          in if track_name = [] then Inr None
             else if artist_name \<noteq> [] then
               let artist_name = clean_artist artist_name;
                   track_name = clean_title track_name
               in (case should_add_artist artist_name track_name of
                     Inl e \<Rightarrow> Inl e
                   | Inr add \<Rightarrow>
                       let search_term =
                             (if add then artist_name @ '' '' @ track_name else track_name)
                       in Inr (Some (entry artist_name track_name search_term)))
             else
               let track_name = clean_title track_name;
                   search_term = track_name
               in Inr (Some (entry artist_name track_name search_term))))"

fun csv_loop :: "nat \<Rightarrow> row list \<Rightarrow> song list \<Rightarrow> diag list \<Rightarrow> error + song list \<times> diag list" where
  \<comment> \<open>The last argument is what has been printed so far.\<close>
  "csv_loop row_num [] songs out = Inr (songs, out)"
| "csv_loop row_num (r # rows) songs out =
     (case csv_row r of
        Inl e \<Rightarrow> Inl e
      | Inr None \<Rightarrow> csv_loop (row_num + 1) rows songs (out @ [No_track_name row_num])
      | Inr (Some e) \<Rightarrow> csv_loop (row_num + 1) rows (songs @ [e]) out)"

definition process_csv_export :: "row list \<Rightarrow> (song list \<times> diag list) outcome" where
  \<comment> \<open>On the rows that the reader yields from an opened file; any exception ends the
      process with code 1.\<close>
  "process_csv_export rows =
     (case csv_loop 1 rows [] [] of Inl e \<Rightarrow> Exited 1 | Inr res \<Rightarrow> Returned res)"

subsection \<open>Text lines\<close>

definition parse_line :: "string \<Rightarrow> error + song" where
  \<comment> \<open>What \<^verbatim>\<open>process_text_list\<close> and \<^verbatim>\<open>interactive_input\<close> build from a stripped line
      that they do not pass over; the two functions repeat the same statements.\<close>
  "parse_line line =
     (if sublist '' - '' line then
        let parts = split1 '' - '' line
        in (case index parts 0 of Inl e \<Rightarrow> Inl e | Inr part0 \<Rightarrow>
           (case index parts 1 of Inl e \<Rightarrow> Inl e | Inr part1 \<Rightarrow>
              let artist_name = clean_artist (strip part0);
                  track_name = clean_title (strip part1)
              in (case should_add_artist artist_name track_name of
                    Inl e \<Rightarrow> Inl e
                  | Inr add \<Rightarrow>
                      let search_term =
                            (if add then artist_name @ '' '' @ track_name else track_name)
                      in Inr (entry artist_name track_name search_term))))
      else
        let artist_name = [];
            track_name = clean_title line;
            search_term = track_name
        in Inr (entry artist_name track_name search_term))"

definition text_line :: "string \<Rightarrow> error + song option" where
  \<comment> \<open>The body of the loop of \<^verbatim>\<open>process_text_list\<close>: \<open>Inr None\<close> is \<^verbatim>\<open>continue\<close>.\<close>
  "text_line line0 =
     (let line = strip line0
      in if line = [] \<or> prefix ''#'' line then Inr None
         else (case parse_line line of Inl e \<Rightarrow> Inl e | Inr e \<Rightarrow> Inr (Some e)))"

fun text_loop :: "string list \<Rightarrow> song list \<Rightarrow> diag list \<Rightarrow> error + song list \<times> diag list" where
  \<comment> \<open>The last argument is what has been printed so far; this loop prints nothing.\<close>
  "text_loop [] songs out = Inr (songs, out)"
| "text_loop (line # rest) songs out =
     (case text_line line of
        Inl e \<Rightarrow> Inl e
      | Inr None \<Rightarrow> text_loop rest songs out
      | Inr (Some e) \<Rightarrow> text_loop rest (songs @ [e]) out)"

definition process_text_list :: "string list \<Rightarrow> (song list \<times> diag list) outcome" where
  \<comment> \<open>On the lines of an opened file; any exception ends the process with code 1.\<close>
  "process_text_list lines =
     (case text_loop lines [] [] of Inl e \<Rightarrow> Exited 1 | Inr res \<Rightarrow> Returned res)"

subsection \<open>Interactive lines\<close>

fun interactive_loop :: "string list \<Rightarrow> song list \<Rightarrow> error + song list" where
  \<comment> \<open>The first argument is what \<^verbatim>\<open>input()\<close> returns, call after call; at the end of
      the input it raises EOFError, which the function does not catch. An interrupt
      from the keyboard is not a line of input and is left out.\<close>
  "interactive_loop [] songs = Inl EOFError"
| "interactive_loop (typed # rest) songs =
     (let song_input = strip typed
      in if song_input = [] \<or> lower song_input = ''q'' then Inr songs
         else (case parse_line song_input of
                 Inl e \<Rightarrow> Inl e
               | Inr e \<Rightarrow> interactive_loop rest (songs @ [e])))"

definition interactive_input :: "string list \<Rightarrow> error + song list" where
  "interactive_input typed = interactive_loop typed []"

section \<open>Search directives\<close>

definition search_directive :: "string \<Rightarrow> song \<Rightarrow> string" where
  \<comment> \<open>The body of the loop of \<^verbatim>\<open>generate_youtube_searches\<close>.\<close>
  "search_directive search_quality s =
     (let search_query =
            (if search_quality = ''best'' then search s @ '' official audio''
             else if search_quality = ''fast'' then search s
             else search s @ '' official'');
          search_url = ''ytsearch1:'' @ search_query
      in search_url)"

fun generate_loop :: "string \<Rightarrow> song list \<Rightarrow> string list \<Rightarrow> string list" where
  "generate_loop search_quality [] search_urls = search_urls"
| "generate_loop search_quality (s # songs) search_urls =
     generate_loop search_quality songs (search_urls @ [search_directive search_quality s])"

definition generate_youtube_searches :: "song list \<Rightarrow> string \<Rightarrow> string list" where
  "generate_youtube_searches songs search_quality = generate_loop search_quality songs []"

section \<open>Notions of the specification\<close>

definition spec_search :: "string \<Rightarrow> string \<Rightarrow> string" where
  \<comment> \<open>The search string that the specification's assembler prescribes for a cleaned
      artist and a cleaned title.\<close>
  "spec_search a t = (if should_add_artist a t = Inr True then a @ '' '' @ t else t)"

definition produced :: "(error + song option) list \<Rightarrow> song list" where
  \<comment> \<open>The entries among the results of the loop bodies, in order.\<close>
  "produced rs = concat (map (\<lambda>r. case r of Inr (Some e) \<Rightarrow> [e] | _ \<Rightarrow> []) rs)"

subsection \<open>What the substitutions of \<open>clean_title\<close> remove\<close>










subsection \<open>The title cleaner as the specification words it\<close>






subsection \<open>Auxiliary notions\<close>


fun consuming :: "item \<Rightarrow> bool" where
  \<comment> \<open>The item takes at least one character.\<close>
  "consuming (One a) = True"
| "consuming (Plus a) = True"
| "consuming (Lazy a) = False"
| "consuming (Star a) = False"
| "consuming Eos = False"

section \<open>Characters and strings\<close>

lemma of_char_lower: "(of_char (lower_char c) :: nat) =
  (if (65 \<le> (of_char c::nat) \<and> (of_char c::nat) \<le> 90) \<or> (192 \<le> (of_char c::nat) \<and> (of_char c::nat) \<le> 222 \<and> (of_char c::nat) \<noteq> 215) then of_char c + 32 else of_char c)"
  by (auto simp: lower_char_def Let_def)

lemma char_eq_code: "(c = d) = ((of_char c :: nat) = of_char d)"
  by simp

lemma isspace_code: "isspace c \<longleftrightarrow> (of_char c :: nat) \<in> {9,10,11,12,13,28,29,30,31,32,133,160}"
  unfolding isspace_def by (simp only: list.set insert_iff empty_iff char_eq_code [of c]) simp

lemma isspace_lower [simp]: "isspace (lower_char c) = isspace c"
  unfolding isspace_code of_char_lower by auto

lemma strip_Nil [simp]: "strip [] = []"
  by (simp add: strip_def)

lemma strip_ends:
  assumes "strip s \<noteq> []"
  shows "\<not> isspace (hd (strip s))" and "\<not> isspace (last (strip s))"
proof -
  let ?d = "dropWhile isspace s"
  let ?r = "dropWhile isspace (rev ?d)"
  from assms have r: "?r \<noteq> []" by (simp add: strip_def)
  then have "\<not> isspace (hd ?r)" by (rule hd_dropWhile)
  then show "\<not> isspace (last (strip s))" using r by (simp add: strip_def last_rev)
  have d: "?d \<noteq> []"
  proof
    assume e: "?d = []"
    have "?r = []" unfolding e by simp
    with r show False by (simp only:)
  qed
  then have hd: "\<not> isspace (hd ?d)" by (rule hd_dropWhile)
  then have "hd ?d \<in> set (rev ?d)" using d by simp
  have "rev ?d = rev (tl ?d) @ [hd ?d]" using d by (cases ?d) simp_all
  then have "?r = dropWhile isspace (rev (tl ?d)) @ [hd ?d]"
    using hd by (simp add: dropWhile_append3)
  then have "strip s = hd ?d # rev (dropWhile isspace (rev (tl ?d)))"
    by (simp add: strip_def)
  then show "\<not> isspace (hd (strip s))" using hd by simp
qed

lemma split_ws_nonempty:
  assumes "s \<noteq> []" "\<not> isspace (hd s)"
  shows "split_ws s \<noteq> []"
proof -
  from assms obtain c cs where "s = c # cs" "\<not> isspace c" by (cases s) auto
  then show ?thesis by (subst split_ws.simps) simp
qed

lemma index_0: "xs \<noteq> [] \<Longrightarrow> index xs 0 = Inr (hd xs)"
  by (cases xs) (simp_all add: index_def)

lemma split1_sublist:
  assumes "sep \<noteq> []" "sublist sep l"
  shows "\<exists>p0 p1. split1 sep l = [p0, p1] \<and> l = p0 @ sep @ p1 \<and> (p0 = [] \<longleftrightarrow> prefix sep l)"
  using assms(2)
proof (induction l)
  case Nil
  with assms(1) show ?case by simp
next
  case (Cons c cs)
  show ?case
  proof (cases "prefix sep (c # cs)")
    case True
    then obtain r where r: "c # cs = sep @ r" by (auto simp: prefix_def)
    have "split1 sep (c # cs) = [[], drop (length sep) (c # cs)]"
      using True by simp
    also have "drop (length sep) (c # cs) = r" unfolding r by simp
    finally show ?thesis using r True by simp
  next
    case False
    with Cons.prems have "sublist sep cs" by (simp add: sublist_Cons_right)
    from Cons.IH [OF this] obtain p0 p1 where "split1 sep cs = [p0, p1]" "cs = p0 @ sep @ p1"
      by blast
    with False show ?thesis by simp
  qed
qed

lemma split1_not_sublist: "\<not> sublist sep l \<Longrightarrow> split1 sep l = [l]"
  by (induction l) (auto simp: sublist_Cons_right)

section \<open>The duplication guard\<close>

lemma should_add_artist_total:
  assumes "a = [] \<or> \<not> isspace (hd a)"
  shows "\<exists>b. should_add_artist a t = Inr b"
proof (cases "a = []")
  case True
  then have "should_add_artist a t = Inr False" by (simp add: should_add_artist_def)
  then show ?thesis by blast
next
  case False
  with assms have "lower a \<noteq> []" "\<not> isspace (hd (lower a))"
    by (simp_all add: lower_def hd_map)
  then have "split_ws (lower a) \<noteq> []" by (rule split_ws_nonempty)
  then show ?thesis
    by (auto simp: should_add_artist_def Let_def index_0)
qed

lemma clean_artist_stripped: "clean_artist x = [] \<or> \<not> isspace (hd (clean_artist x))"
  using strip_ends(1) by (auto simp: clean_artist_def Let_def)

lemma should_add_clean_artist: "\<exists>b. should_add_artist (clean_artist x) t = Inr b"
  by (rule should_add_artist_total) (rule clean_artist_stripped)

lemma should_add_artist_words:
  assumes "split_ws (lower a) = w # ws"
  shows "should_add_artist a t =
     Inr (\<not> (a = ''Unknown Artist'' \<or> sublist (lower a) (lower t) \<or>
               (2 < length w \<and> sublist w (lower t))))"
proof -
  have "a \<noteq> []"
  proof
    assume "a = []"
    then have "split_ws (lower a) = []" by (simp add: lower_def split_ws.simps)
    with assms show False by simp
  qed
  then show ?thesis using assms by (simp add: should_add_artist_def Let_def index_def)
qed

text \<open>
  Claim C6: for the empty artist \<^verbatim>\<open>should_add_artist\<close> returns false and raises
  nothing, whatever the title: the first return is taken before the first word of
  the artist is looked up.
\<close>

theorem should_add_artist_empty: "should_add_artist [] t = Inr False"
  by (simp add: should_add_artist_def)


section \<open>The search directives\<close>

lemma generate_loop_map:
  "generate_loop q songs acc = acc @ map (search_directive q) songs"
  by (induction songs arbitrary: acc) simp_all

text \<open>
  Claim C7: \<^verbatim>\<open>generate_youtube_searches\<close> yields one directive per song, in the order
  of the songs: \<^verbatim>\<open>ytsearch1:\<close>, the song's search string, and then
  \<^verbatim>\<open> official audio\<close> for the mode \<^verbatim>\<open>best\<close>, nothing for \<^verbatim>\<open>fast\<close>, and
  \<^verbatim>\<open> official\<close> for every other mode.
\<close>

theorem generate_youtube_searches_directives:
  "generate_youtube_searches songs quality =
     map (\<lambda>s. ''ytsearch1:'' @ search s @
                (if quality = ''best'' then '' official audio''
                 else if quality = ''fast'' then [] else '' official'')) songs"
  by (simp add: generate_youtube_searches_def generate_loop_map search_directive_def)

section \<open>The entries and the loops of the adapters\<close>

lemma artist_entry: "artist (entry a t s) = (if a = [] then ''Unknown Artist'' else a)"
  by (simp add: entry_def or_else_def)

lemma artist_entry_nonempty: "artist (entry a t s) \<noteq> []"
  by (simp add: artist_entry)

lemma clean_artist_Nil: "clean_artist [] = []"
  by (simp add: clean_artist_def strip_def)

lemma csv_row_cases:
  assumes "csv_row r = Inr (Some e)"
  obtains tc ac t s where "row_get r ''Track Name'' = Some tc" "row_get r ''Artist Name(s)'' = Some ac"
    "strip tc \<noteq> []" "e = entry (clean_artist (strip ac)) t s"
  using assms unfolding csv_row_def Let_def
  by (auto split: option.splits sum.splits if_splits simp: clean_artist_Nil)

lemma parse_line_cases:
  assumes "parse_line l = Inr e"
  obtains t where "\<not> sublist '' - '' l" "e = entry [] t t"
  | p0 p1 t s where "sublist '' - '' l" "index (split1 '' - '' l) 0 = Inr p0" "index (split1 '' - '' l) 1 = Inr p1"
      "e = entry (clean_artist (strip p0)) t s"
  using assms unfolding parse_line_def Let_def
  by (auto split: option.splits sum.splits if_splits)

lemma produced_simps [simp]:
  "produced [] = []"
  "produced (Inr (Some e) # rs) = e # produced rs"
  "produced (Inr None # rs) = produced rs"
  "produced (Inl x # rs) = produced rs"
  by (simp_all add: produced_def)

lemma set_produced: "set (produced rs) = {e. Inr (Some e) \<in> set rs}"
  by (induction rs) (auto simp: produced_def split: sum.splits option.splits)

lemma csv_loop_songs:
  "csv_loop n rows songs out = Inr (songs', out') \<Longrightarrow>
     songs' = songs @ produced (map csv_row rows)"
proof (induction rows arbitrary: n songs out)
  case Nil
  then show ?case by simp
next
  case (Cons r rows)
  show ?case
  proof (cases "csv_row r")
    case (Inl x)
    with Cons.prems show ?thesis by simp
  next
    case (Inr res)
    show ?thesis
    proof (cases res)
      case None
      with Inr Cons.prems Cons.IH [of "n + 1" songs "out @ [No_track_name n]"]
      show ?thesis by simp
    next
      case (Some e)
      with Inr Cons.prems Cons.IH [of "n + 1" "songs @ [e]" out]
      show ?thesis by simp
    qed
  qed
qed

lemma text_loop_songs:
  "text_loop ls songs out = Inr (songs', out') \<Longrightarrow>
     songs' = songs @ produced (map text_line ls) \<and> out' = out"
proof (induction ls arbitrary: songs)
  case Nil
  then show ?case by simp
next
  case (Cons l ls)
  show ?case
  proof (cases "text_line l")
    case (Inl x)
    with Cons.prems show ?thesis by simp
  next
    case (Inr res)
    show ?thesis
    proof (cases res)
      case None
      with Inr Cons.prems Cons.IH [of songs] show ?thesis by simp
    next
      case (Some e)
      with Inr Cons.prems Cons.IH [of "songs @ [e]"] show ?thesis by simp
    qed
  qed
qed

lemma interactive_loop_songs:
  "interactive_loop ls songs = Inr songs' \<Longrightarrow> e \<in> set songs' \<Longrightarrow> e \<notin> set songs \<Longrightarrow>
     \<exists>l \<in> set ls. parse_line (strip l) = Inr e"
proof (induction ls arbitrary: songs)
  case Nil
  then show ?case by simp
next
  case (Cons l ls)
  show ?case
  proof (cases "strip l = [] \<or> lower (strip l) = ''q''")
    case True
    with Cons.prems show ?thesis by (auto simp: Let_def)
  next
    case False
    with Cons.prems obtain e' where e': "parse_line (strip l) = Inr e'"
      and loop: "interactive_loop ls (songs @ [e']) = Inr songs'"
      by (auto simp: Let_def split: sum.splits)
    show ?thesis
    proof (cases "e = e'")
      case True
      with e' show ?thesis by auto
    next
      case False
      with Cons.prems have "e \<notin> set (songs @ [e'])" by simp
      from Cons.IH [OF loop Cons.prems(2) this] show ?thesis by auto
    qed
  qed
qed

lemma csv_songs_produced:
  "csv_loop n rows [] out = Inr (songs', out') \<Longrightarrow> e \<in> set songs' \<Longrightarrow>
     \<exists>r \<in> set rows. csv_row r = Inr (Some e)"
  by (drule csv_loop_songs) (auto simp: set_produced)

lemma text_songs_produced:
  "text_loop ls [] out = Inr (songs', out') \<Longrightarrow> e \<in> set songs' \<Longrightarrow>
     \<exists>l \<in> set ls. text_line l = Inr (Some e)"
  by (drule text_loop_songs) (auto simp: set_produced)

lemma text_line_parse: "text_line l = Inr (Some e) \<Longrightarrow> parse_line (strip l) = Inr e"
  by (auto simp: text_line_def Let_def split: if_splits sum.splits)

lemma text_loop_append:
  "text_loop (xs @ ys) songs out =
     (case text_loop xs songs out of Inl e \<Rightarrow> Inl e | Inr (songs', out') \<Rightarrow> text_loop ys songs' out')"
  by (induction xs arbitrary: songs) (auto split: sum.splits option.splits)

section \<open>The search string of an entry\<close>

lemma guarded_search:
  "should_add_artist (clean_artist x) t = Inr add \<Longrightarrow>
     (if add then clean_artist x @ '' '' @ t else t) = spec_search (clean_artist x) t"
  by (simp add: spec_search_def)

lemma csv_row_artist:
  assumes "row_get r ''Track Name'' = Some tc" "row_get r ''Artist Name(s)'' = Some ac"
    and "strip tc \<noteq> []" "strip ac \<noteq> []"
  shows "csv_row r = Inr (Some (entry (clean_artist (strip ac)) (clean_title (strip tc))
            (spec_search (clean_artist (strip ac)) (clean_title (strip tc)))))"
proof -
  obtain add where add: "should_add_artist (clean_artist (strip ac)) (clean_title (strip tc)) = Inr add"
    using should_add_clean_artist by blast
  show ?thesis
    using assms add guarded_search [OF add] by (simp add: csv_row_def Let_def)
qed

lemma stripped_split:
  assumes "l = strip l0" "sublist '' - '' l"
  obtains p0 p1 where "split1 '' - '' l = [p0, p1]" "l = p0 @ '' - '' @ p1" "strip p0 \<noteq> []"
proof -
  from split1_sublist [OF _ assms(2)] obtain p0 p1
    where s: "split1 '' - '' l = [p0, p1]" "l = p0 @ '' - '' @ p1" "p0 = [] \<longleftrightarrow> prefix '' - '' l"
    by auto
  from assms(2) have ne: "l \<noteq> []" by auto
  with assms(1) have hd: "\<not> isspace (hd l)" using strip_ends(1) by simp
  have "\<not> prefix '' - '' l"
  proof
    assume "prefix '' - '' l"
    then have "hd l = CHR '' ''" by (auto simp: prefix_def)
    with hd show False by (simp add: isspace_def)
  qed
  with s have p0: "p0 \<noteq> []" by simp
  with s(2) have "hd p0 = hd l" by simp
  with hd p0 have "dropWhile isspace p0 = p0" by (cases p0) simp_all
  moreover have "dropWhile isspace (rev p0) \<noteq> []"
  proof -
    from p0 hd \<open>hd p0 = hd l\<close> have "\<exists>x\<in>set (rev p0). \<not> isspace x"
      by (cases p0) auto
    then show ?thesis by simp
  qed
  ultimately have "strip p0 \<noteq> []" by (simp add: strip_def)
  with s show ?thesis using that by blast
qed

lemma parse_line_artist:
  assumes "split1 '' - '' l = [p0, p1]" "sublist '' - '' l"
  shows "parse_line l = Inr (entry (clean_artist (strip p0)) (clean_title (strip p1))
            (spec_search (clean_artist (strip p0)) (clean_title (strip p1))))"
proof -
  obtain add where add: "should_add_artist (clean_artist (strip p0)) (clean_title (strip p1)) = Inr add"
    using should_add_clean_artist by blast
  show ?thesis
    using assms add guarded_search [OF add] by (simp add: parse_line_def Let_def index_def)
qed

lemma parse_line_bare:
  "\<not> sublist '' - '' l \<Longrightarrow> parse_line l = Inr (entry [] (clean_title l) (clean_title l))"
  by (simp add: parse_line_def Let_def)

text \<open>
  Claim C1: where the raw artist is not empty, each adapter builds its entry from the
  cleaned artist \<open>a\<close> and the cleaned title \<open>t\<close> with the search string
  \<open>spec_search a t\<close>: \<open>a\<close>, a space and \<open>t\<close> when the guard returns true, and
  \<open>t\<close> alone otherwise, also when \<open>t\<close> is empty. The three parts are the CSV row,
  the text line and the interactive line; a stripped line with the separator always
  has a non-empty raw artist in front of it. The guard raises nothing there, since the
  entry is built.
\<close>

theorem search_follows_guard:
  "(row_get r ''Track Name'' = Some tc \<and> row_get r ''Artist Name(s)'' = Some ac \<and>
      strip tc \<noteq> [] \<and> strip ac \<noteq> [] \<longrightarrow>
      csv_row r = Inr (Some (entry (clean_artist (strip ac)) (clean_title (strip tc))
        (spec_search (clean_artist (strip ac)) (clean_title (strip tc))))))
   \<and> (strip l \<noteq> [] \<and> \<not> prefix ''#'' (strip l) \<and> sublist '' - '' (strip l) \<longrightarrow>
      (\<exists>p0 p1. strip l = p0 @ '' - '' @ p1 \<and> split1 '' - '' (strip l) = [p0, p1] \<and> strip p0 \<noteq> [] \<and>
         text_line l = Inr (Some (entry (clean_artist (strip p0)) (clean_title (strip p1))
           (spec_search (clean_artist (strip p0)) (clean_title (strip p1)))))))
   \<and> (strip l \<noteq> [] \<and> lower (strip l) \<noteq> ''q'' \<and> sublist '' - '' (strip l) \<longrightarrow>
      (\<exists>p0 p1. strip l = p0 @ '' - '' @ p1 \<and> split1 '' - '' (strip l) = [p0, p1] \<and> strip p0 \<noteq> [] \<and>
         interactive_loop (l # rest) songs =
           interactive_loop rest (songs @ [entry (clean_artist (strip p0)) (clean_title (strip p1))
             (spec_search (clean_artist (strip p0)) (clean_title (strip p1)))])))"
proof (intro conjI impI)
  assume "row_get r ''Track Name'' = Some tc \<and> row_get r ''Artist Name(s)'' = Some ac \<and>
      strip tc \<noteq> [] \<and> strip ac \<noteq> []"
  then show "csv_row r = Inr (Some (entry (clean_artist (strip ac)) (clean_title (strip tc))
        (spec_search (clean_artist (strip ac)) (clean_title (strip tc)))))"
    by (simp add: csv_row_artist)
next
  assume a: "strip l \<noteq> [] \<and> \<not> prefix ''#'' (strip l) \<and> sublist '' - '' (strip l)"
  then obtain p0 p1 where p: "split1 '' - '' (strip l) = [p0, p1]" "strip l = p0 @ '' - '' @ p1"
      "strip p0 \<noteq> []"
    using stripped_split [of "strip l" l] by blast
  have "text_line l = Inr (Some (entry (clean_artist (strip p0)) (clean_title (strip p1))
           (spec_search (clean_artist (strip p0)) (clean_title (strip p1)))))"
    using a parse_line_artist [OF p(1)] by (simp add: text_line_def Let_def)
  with p show "\<exists>p0 p1. strip l = p0 @ '' - '' @ p1 \<and> split1 '' - '' (strip l) = [p0, p1] \<and> strip p0 \<noteq> [] \<and>
         text_line l = Inr (Some (entry (clean_artist (strip p0)) (clean_title (strip p1))
           (spec_search (clean_artist (strip p0)) (clean_title (strip p1)))))"
    by blast
next
  assume a: "strip l \<noteq> [] \<and> lower (strip l) \<noteq> ''q'' \<and> sublist '' - '' (strip l)"
  then obtain p0 p1 where p: "split1 '' - '' (strip l) = [p0, p1]" "strip l = p0 @ '' - '' @ p1"
      "strip p0 \<noteq> []"
    using stripped_split [of "strip l" l] by blast
  have "interactive_loop (l # rest) songs =
           interactive_loop rest (songs @ [entry (clean_artist (strip p0)) (clean_title (strip p1))
             (spec_search (clean_artist (strip p0)) (clean_title (strip p1)))])"
    using a parse_line_artist [OF p(1)] by (simp add: Let_def)
  with p show "\<exists>p0 p1. strip l = p0 @ '' - '' @ p1 \<and> split1 '' - '' (strip l) = [p0, p1] \<and> strip p0 \<noteq> [] \<and>
         interactive_loop (l # rest) songs =
           interactive_loop rest (songs @ [entry (clean_artist (strip p0)) (clean_title (strip p1))
             (spec_search (clean_artist (strip p0)) (clean_title (strip p1)))])"
    by blast
qed

text \<open>The theorem of C1 at a CSV row and at a line.\<close>

theorem search_follows_guard_witness:
  "csv_row [''Track Name'' \<mapsto> Some ''One Dance (feat. Wizkid)'', ''Artist Name(s)'' \<mapsto> Some ''Drake, Wizkid''] =
     Inr (Some \<lparr>artist = ''Drake'', title = ''One Dance'', search = ''Drake One Dance''\<rparr>)
   \<and> (\<exists>p0 p1. ''Adele - Adele - Hello'' = p0 @ '' - '' @ p1 \<and> strip p0 \<noteq> [] \<and>
        text_line '' Adele - Adele - Hello'' =
          Inr (Some (entry (clean_artist (strip p0)) (clean_title (strip p1))
                 (spec_search (clean_artist (strip p0)) (clean_title (strip p1))))))"
proof -
  let ?r = "[''Track Name'' \<mapsto> Some ''One Dance (feat. Wizkid)'', ''Artist Name(s)'' \<mapsto> Some ''Drake, Wizkid'']"
  let ?l = "'' Adele - Adele - Hello''"
  have h1: "row_get ?r ''Track Name'' = Some ''One Dance (feat. Wizkid)'' \<and>
            row_get ?r ''Artist Name(s)'' = Some ''Drake, Wizkid'' \<and>
            strip ''One Dance (feat. Wizkid)'' \<noteq> [] \<and> strip ''Drake, Wizkid'' \<noteq> []" by code_simp
  have h2: "strip ?l \<noteq> [] \<and> \<not> prefix ''#'' (strip ?l) \<and> sublist '' - '' (strip ?l)" by code_simp
  have h3: "strip ?l \<noteq> [] \<and> lower (strip ?l) \<noteq> ''q'' \<and> sublist '' - '' (strip ?l)" by code_simp
  have c: "entry (clean_artist (strip ''Drake, Wizkid'')) (clean_title (strip ''One Dance (feat. Wizkid)''))
        (spec_search (clean_artist (strip ''Drake, Wizkid'')) (clean_title (strip ''One Dance (feat. Wizkid)'')))
      = \<lparr>artist = ''Drake'', title = ''One Dance'', search = ''Drake One Dance''\<rparr>" by code_simp
  have s: "strip ?l = ''Adele - Adele - Hello''" by code_simp
  from search_follows_guard [of ?r "''One Dance (feat. Wizkid)''" "''Drake, Wizkid''" ?l "[]" "[]"] h1 h2 h3
  show ?thesis unfolding c s by blast
qed










section \<open>Lines without separator, the sentinel and skipped lines\<close>

text \<open>
  Claim C8, amended: a text line whose stripped form is not empty, does not start with
  \<^verbatim>\<open>#\<close> and has no separator yields the entry with the artist
  \<^verbatim>\<open>Unknown Artist\<close> (the parsed artist is empty and the entry takes the sentinel),
  and with the cleaned stripped line as title and as search string.
\<close>

theorem bare_line_entry:
  "strip l \<noteq> [] \<Longrightarrow> \<not> prefix ''#'' (strip l) \<Longrightarrow> \<not> sublist '' - '' (strip l) \<Longrightarrow>
     text_line l = Inr (Some \<lparr>artist = ''Unknown Artist'', title = clean_title (strip l),
                              search = clean_title (strip l)\<rparr>)"
  by (simp add: text_line_def Let_def parse_line_bare entry_def or_else_def)

text \<open>The theorem of C8 at a line.\<close>

theorem bare_line_entry_witness:
  "text_line ''  Song [Explicit]  '' =
     Inr (Some \<lparr>artist = ''Unknown Artist'', title = ''Song'', search = ''Song''\<rparr>)"
proof -
  have h: "strip ''  Song [Explicit]  '' \<noteq> [] \<and> \<not> prefix ''#'' (strip ''  Song [Explicit]  '') \<and>
     \<not> sublist '' - '' (strip ''  Song [Explicit]  '')" by code_simp
  have c: "clean_title (strip ''  Song [Explicit]  '') = ''Song''" by code_simp
  from h have "text_line ''  Song [Explicit]  '' =
     Inr (Some \<lparr>artist = ''Unknown Artist'', title = clean_title (strip ''  Song [Explicit]  ''),
                search = clean_title (strip ''  Song [Explicit]  '')\<rparr>)"
    by (intro bare_line_entry) simp_all
  then show ?thesis unfolding c .
qed

text \<open>
  Claim C8 as stated fails: the entry of the line \<^verbatim>\<open>Bohemian Rhapsody\<close> has the
  artist \<^verbatim>\<open>Unknown Artist\<close>, not the empty string.
\<close>

theorem bare_line_artist_sentinel:
  "text_line ''Bohemian Rhapsody'' =
     Inr (Some \<lparr>artist = ''Unknown Artist'', title = ''Bohemian Rhapsody'',
                search = ''Bohemian Rhapsody''\<rparr>)
   \<and> ''Unknown Artist'' \<noteq> []"
  by code_simp

text \<open>
  Claim C9: no entry in the list that an adapter returns has an empty artist, and
  where the cleaned artist of a CSV row or of a line is empty, or the line has no
  separator, the artist of the entry is \<^verbatim>\<open>Unknown Artist\<close>.
\<close>

theorem entries_have_artist:
  "(process_csv_export rows = Returned (songs1, out1) \<longrightarrow> (\<forall>e \<in> set songs1. artist e \<noteq> []))
   \<and> (process_text_list ls = Returned (songs2, out2) \<longrightarrow> (\<forall>e \<in> set songs2. artist e \<noteq> []))
   \<and> (interactive_input typed = Inr songs3 \<longrightarrow> (\<forall>e \<in> set songs3. artist e \<noteq> []))
   \<and> (csv_row r = Inr (Some e1) \<and> row_get r ''Artist Name(s)'' = Some ac \<and>
        clean_artist (strip ac) = [] \<longrightarrow> artist e1 = ''Unknown Artist'')
   \<and> (parse_line l = Inr e2 \<and> split1 '' - '' l = [p0, p1] \<and>
        clean_artist (strip p0) = [] \<longrightarrow> artist e2 = ''Unknown Artist'')
   \<and> (parse_line l' = Inr e3 \<and> \<not> sublist '' - '' l' \<longrightarrow> artist e3 = ''Unknown Artist'')"
proof -
  have csv: "artist e \<noteq> []" if "csv_row r = Inr (Some e)" for r e
    using that by (rule csv_row_cases) (simp add: artist_entry_nonempty)
  have line: "artist e \<noteq> []" if "parse_line l = Inr e" for l e
    using that by (rule parse_line_cases) (simp_all add: artist_entry_nonempty)
  have 1: "process_csv_export rows = Returned (songs1, out1) \<longrightarrow> (\<forall>e \<in> set songs1. artist e \<noteq> [])"
  proof (intro impI ballI)
    fix e
    assume "process_csv_export rows = Returned (songs1, out1)" and e: "e \<in> set songs1"
    then have "csv_loop 1 rows [] [] = Inr (songs1, out1)"
      by (simp add: process_csv_export_def split: sum.splits)
    from csv_songs_produced [OF this e] csv show "artist e \<noteq> []" by blast
  qed
  have 2: "process_text_list ls = Returned (songs2, out2) \<longrightarrow> (\<forall>e \<in> set songs2. artist e \<noteq> [])"
  proof (intro impI ballI)
    fix e
    assume "process_text_list ls = Returned (songs2, out2)" and e: "e \<in> set songs2"
    then have "text_loop ls [] [] = Inr (songs2, out2)"
      by (simp add: process_text_list_def split: sum.splits)
    from text_songs_produced [OF this e] text_line_parse line show "artist e \<noteq> []" by blast
  qed
  have 3: "interactive_input typed = Inr songs3 \<longrightarrow> (\<forall>e \<in> set songs3. artist e \<noteq> [])"
  proof (intro impI ballI)
    fix e
    assume "interactive_input typed = Inr songs3" and e: "e \<in> set songs3"
    then have "interactive_loop typed [] = Inr songs3"
      by (simp add: interactive_input_def)
    from interactive_loop_songs [OF this e] line show "artist e \<noteq> []" by auto
  qed
  have 4: "csv_row r = Inr (Some e1) \<and> row_get r ''Artist Name(s)'' = Some ac \<and>
        clean_artist (strip ac) = [] \<longrightarrow> artist e1 = ''Unknown Artist''"
  proof
    assume a: "csv_row r = Inr (Some e1) \<and> row_get r ''Artist Name(s)'' = Some ac \<and>
        clean_artist (strip ac) = []"
    then have "csv_row r = Inr (Some e1)" by simp
    then obtain ac' t s where "row_get r ''Artist Name(s)'' = Some ac'"
        "e1 = entry (clean_artist (strip ac')) t s"
      by (rule csv_row_cases)
    with a show "artist e1 = ''Unknown Artist''" by (simp add: artist_entry)
  qed
  have 5: "parse_line l = Inr e2 \<and> split1 '' - '' l = [p0, p1] \<and>
        clean_artist (strip p0) = [] \<longrightarrow> artist e2 = ''Unknown Artist''"
  proof
    assume a: "parse_line l = Inr e2 \<and> split1 '' - '' l = [p0, p1] \<and> clean_artist (strip p0) = []"
    then have "parse_line l = Inr e2" by simp
    then show "artist e2 = ''Unknown Artist''"
    proof (rule parse_line_cases)
      fix t assume "e2 = entry [] t t"
      then show ?thesis by (simp add: artist_entry)
    next
      fix q0 q1 t s
      assume "index (split1 '' - '' l) 0 = Inr q0" "e2 = entry (clean_artist (strip q0)) t s"
      with a show ?thesis by (simp add: artist_entry index_def)
    qed
  qed
  have 6: "parse_line l' = Inr e3 \<and> \<not> sublist '' - '' l' \<longrightarrow> artist e3 = ''Unknown Artist''"
    using parse_line_bare [of l'] by (auto simp: artist_entry)
  from 1 2 3 4 5 6 show ?thesis by (intro conjI)
qed

text \<open>The theorem of C9 at a row, a file and a session whose artist cleans to nothing.\<close>

theorem entries_have_artist_witness:
  "process_csv_export [[''Track Name'' \<mapsto> Some ''Hello'', ''Artist Name(s)'' \<mapsto> Some '', x'']] =
     Returned ([\<lparr>artist = ''Unknown Artist'', title = ''Hello'', search = ''Hello''\<rparr>], [])
   \<and> process_text_list ['', x - Hello''] =
     Returned ([\<lparr>artist = ''Unknown Artist'', title = ''Hello'', search = ''Hello''\<rparr>], [])
   \<and> interactive_input [''Hello'', ''q''] =
     Inr [\<lparr>artist = ''Unknown Artist'', title = ''Hello'', search = ''Hello''\<rparr>]
   \<and> artist \<lparr>artist = ''Unknown Artist'', title = ''Hello'', search = ''Hello''\<rparr> \<noteq> []
   \<and> artist \<lparr>artist = ''Unknown Artist'', title = ''Hello'', search = ''Hello''\<rparr> = ''Unknown Artist''"
proof -
  let ?e = "\<lparr>artist = ''Unknown Artist'', title = ''Hello'', search = ''Hello''\<rparr>"
  let ?r = "[''Track Name'' \<mapsto> Some ''Hello'', ''Artist Name(s)'' \<mapsto> Some '', x'']"
  have h1: "process_csv_export [?r] = Returned ([?e], [])" by code_simp
  have h2: "process_text_list ['', x - Hello''] = Returned ([?e], [])" by code_simp
  have h3: "interactive_input [''Hello'', ''q''] = Inr [?e]" by code_simp
  have h4: "csv_row ?r = Inr (Some ?e) \<and> row_get ?r ''Artist Name(s)'' = Some '', x'' \<and>
        clean_artist (strip '', x'') = []" by code_simp
  have h5: "parse_line '', x - Hello'' = Inr ?e \<and> split1 '' - '' '', x - Hello'' = ['', x'', ''Hello''] \<and>
        clean_artist (strip '', x'') = []" by code_simp
  have h6: "parse_line ''Hello'' = Inr ?e \<and> \<not> sublist '' - '' ''Hello''" by code_simp
  show ?thesis
    using entries_have_artist [of "[?r]" "[?e]" "[]" "['', x - Hello'']" "[?e]" "[]" "[''Hello'', ''q'']"
        "[?e]" ?r ?e "'', x''" "'', x - Hello''" ?e "'', x''" "''Hello''" "''Hello''" ?e]
      h1 h2 h3 h4 h5 h6
    by simp
qed

text \<open>
  Claim C10: a line of the text file that is empty after stripping, or then starts
  with \<^verbatim>\<open>#\<close>, yields no entry; the loop passes it with the songs and the output
  as they were, and the file without that line gives the same result.
\<close>

theorem text_loop_skips:
  "strip l = [] \<or> prefix ''#'' (strip l) \<Longrightarrow>
     text_line l = Inr None \<and> text_loop [l] songs out = Inr (songs, out) \<and>
     process_text_list (xs @ l # ys) = process_text_list (xs @ ys)"
proof -
  assume "strip l = [] \<or> prefix ''#'' (strip l)"
  then have skip: "text_line l = Inr None" by (auto simp: text_line_def Let_def)
  have "text_loop (xs @ l # ys) [] [] = text_loop (xs @ ys) [] []"
    by (simp add: text_loop_append skip split: sum.splits)
  with skip show ?thesis by (simp add: process_text_list_def)
qed

text \<open>The theorem of C10 at a comment line between two songs.\<close>

theorem text_loop_skips_witness:
  "prefix ''#'' (strip ''# my list'') \<and> text_line ''# my list'' = Inr None \<and>
   process_text_list [''Adele - Hello'', ''# my list'', ''Bohemian Rhapsody''] =
     process_text_list [''Adele - Hello'', ''Bohemian Rhapsody'']"
proof -
  have h: "prefix ''#'' (strip ''# my list'')" by code_simp
  then have "strip ''# my list'' = [] \<or> prefix ''#'' (strip ''# my list'')" by (rule disjI2)
  from text_loop_skips [OF this, of "[]" "[]" "[''Adele - Hello'']" "[''Bohemian Rhapsody'']"] h
  show ?thesis by simp
qed

section \<open>The matcher on the patterns of the converter\<close>

lemma rmatch_length:
  "rmatch ic p s = Some t \<Longrightarrow>
     length t \<le> length s \<and> (list_ex consuming p \<longrightarrow> length t < length s)"
proof (induction ic p s arbitrary: t rule: rmatch.induct)
  case (1 ic s)
  then show ?case by simp
next
  case (2 ic a r s)
  from "2.prems" obtain c cs where s: "s = c # cs" and ok: "atom_ok ic a c"
    and m: "rmatch ic r cs = Some t"
    by (cases s) (auto split: if_splits)
  from "2.IH" [OF s ok m] show ?case using s by simp
next
  case (3 ic a r s)
  show ?case
  proof (cases "rmatch ic r s")
    case (Some u)
    with "3.prems" have "rmatch ic r s = Some t" by simp
    from "3.IH"(1) [OF this] show ?thesis by simp
  next
    case None
    with "3.prems" obtain c cs where s: "s = c # cs" and ok: "atom_ok ic a c"
      and m: "rmatch ic (Lazy a # r) cs = Some t"
      by (cases s) (auto split: if_splits)
    from "3.IH"(2) [OF None s ok m] show ?thesis using s by simp
  qed
next
  case (4 ic a r s)
  show ?case
  proof (cases s)
    case Nil
    with "4.prems" have "rmatch ic r [] = Some t" by simp
    from "4.IH"(1) [OF Nil this] show ?thesis using Nil by simp
  next
    case (Cons c cs)
    show ?thesis
    proof (cases "atom_ok ic a c")
      case False
      with "4.prems" Cons have "rmatch ic r s = Some t" by simp
      from "4.IH"(4) [OF Cons False this] show ?thesis by simp
    next
      case True
      show ?thesis
      proof (cases "rmatch ic (Star a # r) cs")
        case None
        with "4.prems" Cons True have "rmatch ic r s = Some t" by simp
        from "4.IH"(3) [OF Cons True None this] show ?thesis by simp
      next
        case (Some u)
        with "4.prems" Cons True have "rmatch ic (Star a # r) cs = Some t" by simp
        from "4.IH"(2) [OF Cons True this] show ?thesis using Cons by simp
      qed
    qed
  qed
next
  case (5 ic a r s)
  from "5.prems" obtain c cs where s: "s = c # cs" and ok: "atom_ok ic a c"
    and m: "rmatch ic (Star a # r) cs = Some t"
    by (cases s) (auto split: if_splits)
  from "5.IH" [OF s ok m] show ?case using s by simp
next
  case (6 ic r s)
  from "6.prems" have e: "s = [] \<or> s = [newline]" and m: "rmatch ic r s = Some t"
    by (auto split: if_splits)
  from "6.IH" [OF e m] show ?case by simp
qed

lemma patterns_consume:
  assumes "p \<in> {paren_prefix kw, paren_containing kw, bracketed, spaces, artist_sep, artist_tail (k # kw)}"
    and "rmatch ic p s = Some t"
  shows "length t < length s"
proof -
  from assms(1) have "list_ex consuming p"
    by (auto simp: paren_prefix_def paren_containing_def bracketed_def spaces_def artist_sep_def
        artist_tail_def lits_def)
  with rmatch_length [OF assms(2)] show ?thesis by simp
qed






















section \<open>The title cleaner\<close>













lemma dropWhile_hd: "dropWhile P s = [] \<or> \<not> P (hd (dropWhile P s))"
  using hd_dropWhile by blast














end
